theory Spec2Isabelle
  imports Complex_Main "HOL-Library.AList"
begin

section \<open>Mamdani fuzzy inference of \<open>app.js\<close>\<close>

text \<open>
  The embedding covers the numeric core of \<open>app.js\<close>: \<open>triangleMf\<close>, the three tables of
  membership functions, the rule matrix and the four stages of \<open>update\<close>. The DOM reads
  and writes and the Chart.js calls are left out; \<open>update\<close> takes the two parsed slider
  values and returns the values it computes.

  In the model of the whole run, JavaScript numbers are \<^typ>\<open>real\<close>: every operation is
  exact, and the rounding and overflow of IEEE doubles are not part of it. In exact
  arithmetic a division by zero is the only operation of the code whose result is not a
  finite number (\<open>Infinity\<close> or \<open>NaN\<close>); the functions with the suffix \<open>_checked\<close> record
  that event as \<open>None\<close>. The functions with the suffix \<open>_fl\<close> model \<open>triangleMf\<close> and the
  fuzzification in double arithmetic, with rounding, overflow and \<open>NaN\<close>.
\<close>

subsection \<open>Configuration\<close>

text \<open>A triangle is the array \<open>[a, b, c]\<close>.\<close>

type_synonym triangle = "real \<times> real \<times> real"

text \<open>The keys of the configuration objects.\<close>

datatype dirt_term = SD | MD | LD
datatype grease_term = NG | MG | LG
datatype time_term = VS | S | M | L | VL

fun dirtMf :: "dirt_term \<Rightarrow> triangle" where
  "dirtMf SD = (-100, 0, 100)"
| "dirtMf MD = (0, 100, 200)"
| "dirtMf LD = (100, 200, 300)"

fun greaseMf :: "grease_term \<Rightarrow> triangle" where
  "greaseMf NG = (-100, 0, 100)"
| "greaseMf MG = (0, 100, 200)"
| "greaseMf LG = (100, 200, 300)"

fun timeMf :: "time_term \<Rightarrow> triangle" where
  "timeMf VS = (-10, 0, 10)"
| "timeMf S = (0, 10, 25)"
| "timeMf M = (10, 25, 40)"
| "timeMf L = (25, 40, 60)"
| "timeMf VL = (40, 60, 70)"

text \<open>
  The rule matrix is iterated with \<open>for ... in\<close>, so it is kept as nested association
  lists in the order the object literal gives its keys.
\<close>

definition rules :: "(dirt_term \<times> (grease_term \<times> time_term) list) list" where
  "rules =
     [(SD, [(NG, VS), (MG, S), (LG, M)]),
      (MD, [(NG, S), (MG, M), (LG, L)]),
      (LD, [(NG, M), (MG, L), (LG, VL)])]"

subsection \<open>Triangular membership function\<close>

fun triangleMf :: "real \<Rightarrow> triangle \<Rightarrow> real" where
  "triangleMf x (a, b, c) =
     (if x \<le> a \<or> x \<ge> c then 0
      else if x > a \<and> x \<le> b then (x - a) / (b - a)
      else if x > b \<and> x < c then (c - x) / (c - b)
      else 0)"

text \<open>
  A JavaScript division never throws; for a zero divisor it yields \<open>Infinity\<close>,
  \<open>-Infinity\<close> or \<open>NaN\<close>. \<open>None\<close> stands for such a result.
\<close>

definition js_div :: "real \<Rightarrow> real \<Rightarrow> real option" where
  "js_div p q = (if q = 0 then None else Some (p / q))"

fun triangleMf_checked :: "real \<Rightarrow> triangle \<Rightarrow> real option" where
  "triangleMf_checked x (a, b, c) =
     (if x \<le> a \<or> x \<ge> c then Some 0
      else if x > a \<and> x \<le> b then js_div (x - a) (b - a)
      else if x > b \<and> x < c then js_div (c - x) (c - b)
      else Some 0)"

subsection \<open>The stages of \<open>update\<close>\<close>

text \<open>
  Fuzzification. The objects \<open>dirtDegrees\<close> and \<open>greaseDegrees\<close> are literals with the
  three keys of their variable and are only read, so they are functions on the keys.
\<close>

definition dirtDegrees_of :: "real \<Rightarrow> dirt_term \<Rightarrow> real" where
  "dirtDegrees_of dirtValue k =
     (case k of
        SD \<Rightarrow> triangleMf dirtValue (dirtMf SD)
      | MD \<Rightarrow> triangleMf dirtValue (dirtMf MD)
      | LD \<Rightarrow> triangleMf dirtValue (dirtMf LD))"

definition greaseDegrees_of :: "real \<Rightarrow> grease_term \<Rightarrow> real" where
  "greaseDegrees_of greaseValue k =
     (case k of
        NG \<Rightarrow> triangleMf greaseValue (greaseMf NG)
      | MG \<Rightarrow> triangleMf greaseValue (greaseMf MG)
      | LG \<Rightarrow> triangleMf greaseValue (greaseMf LG))"

text \<open>
  Rule evaluation. \<open>outputActivation\<close> is written to and iterated, so it is an
  association list in insertion order. The body of the inner loop is \<open>fire\<close>; a key
  that the object does not have reads as \<open>undefined\<close>, the comparison is then false
  and nothing is stored.
\<close>

type_synonym activation = "(time_term \<times> real) list"

definition outputActivation_init :: activation where
  "outputActivation_init = [(VS, 0), (S, 0), (M, 0), (L, 0), (VL, 0)]"

definition fire ::
  "(dirt_term \<Rightarrow> real) \<Rightarrow> (grease_term \<Rightarrow> real) \<Rightarrow> dirt_term \<Rightarrow>
   grease_term \<times> time_term \<Rightarrow> activation \<Rightarrow> activation" where
  "fire dirtDegrees greaseDegrees dirtSet r outputActivation =
     (let greaseSet = fst r;
          ruleOutputSet = snd r;
          strength = min (dirtDegrees dirtSet) (greaseDegrees greaseSet)
      in case map_of outputActivation ruleOutputSet of
           None \<Rightarrow> outputActivation
         | Some current \<Rightarrow>
             if strength > current
             then AList.update ruleOutputSet strength outputActivation
             else outputActivation)"

definition evalRules :: "(dirt_term \<Rightarrow> real) \<Rightarrow> (grease_term \<Rightarrow> real) \<Rightarrow> activation" where
  "evalRules dirtDegrees greaseDegrees =
     fold (\<lambda>row outputActivation.
             fold (fire dirtDegrees greaseDegrees (fst row)) (snd row) outputActivation)
          rules outputActivation_init"

text \<open>Aggregation. The inner loop over the entries of \<open>outputActivation\<close>:\<close>

definition maxDegreeAt :: "activation \<Rightarrow> real \<Rightarrow> real" where
  "maxDegreeAt outputActivation t =
     fold (\<lambda>entry maxDegree.
             let activationLevel = snd entry;
                 mfDegree = triangleMf t (timeMf (fst entry));
                 degree = min activationLevel mfDegree
             in if degree > maxDegree then degree else maxDegree)
          outputActivation 0"

text \<open>A point \<open>{x: t, y: maxDegree}\<close> is the pair \<open>(t, maxDegree)\<close>.\<close>

type_synonym point = "real \<times> real"

definition samples :: real where
  "samples = 120"

text \<open>The loop \<open>for (let t = 0; t <= 60; t += 60 / samples)\<close>, from any \<open>t\<close>.\<close>

function aggregateFrom :: "activation \<Rightarrow> real \<Rightarrow> point list \<Rightarrow> point list" where
  "aggregateFrom outputActivation t aggregatedPoints =
     (if t \<le> 60
      then aggregateFrom outputActivation (t + 60 / samples)
             (aggregatedPoints @ [(t, maxDegreeAt outputActivation t)])
      else aggregatedPoints)"
  by pat_completeness auto
termination
  by (relation "measure (\<lambda>(act, t, pts). nat \<lceil>(61 - t) * 2\<rceil>)")
     (auto simp: samples_def, linarith)

definition aggregate :: "activation \<Rightarrow> point list" where
  "aggregate outputActivation = aggregateFrom outputActivation 0 []"

text \<open>Defuzzification. The \<open>forEach\<close> adds to the pair (numerator, denominator).\<close>

definition cogSums :: "point list \<Rightarrow> real \<times> real" where
  "cogSums aggregatedPoints =
     fold (\<lambda>p nd. (fst nd + fst p * snd p, snd nd + snd p)) aggregatedPoints (0, 0)"

definition defuzzify :: "point list \<Rightarrow> real" where
  "defuzzify aggregatedPoints =
     (let numerator = fst (cogSums aggregatedPoints);
          denominator = snd (cogSums aggregatedPoints)
      in if denominator = 0 then 30 else numerator / denominator)"

definition defuzzify_checked :: "point list \<Rightarrow> real option" where
  "defuzzify_checked aggregatedPoints =
     (let numerator = fst (cogSums aggregatedPoints);
          denominator = snd (cogSums aggregatedPoints)
      in if denominator = 0 then Some 30 else js_div numerator denominator)"

text \<open>What one call of \<open>update\<close> computes.\<close>

record inference =
  dirtDegrees :: "dirt_term \<Rightarrow> real"
  greaseDegrees :: "grease_term \<Rightarrow> real"
  outputActivation :: activation
  aggregatedPoints :: "point list"
  cog :: real

definition update :: "real \<Rightarrow> real \<Rightarrow> inference" where
  "update dirtValue greaseValue =
     (let dd = dirtDegrees_of dirtValue;
          gd = greaseDegrees_of greaseValue;
          act = evalRules dd gd;
          pts = aggregate act
      in \<lparr> dirtDegrees = dd, greaseDegrees = gd, outputActivation = act,
           aggregatedPoints = pts, cog = defuzzify pts \<rparr>)"


subsection \<open>Definitions used by the statements\<close>

text \<open>
  Which \<open>return\<close> of \<open>triangleMf\<close> is taken: the guards are those of the source, in its
  order.
\<close>

datatype branch = Outside | Rising | Falling | Fallthrough

fun triangleMf_branch :: "real \<Rightarrow> triangle \<Rightarrow> branch" where
  "triangleMf_branch x (a, b, c) =
     (if x \<le> a \<or> x \<ge> c then Outside
      else if x > a \<and> x \<le> b then Rising
      else if x > b \<and> x < c then Falling
      else Fallthrough)"

text \<open>The peak of a triangle is its middle point \<open>b\<close>.\<close>

definition peak :: "triangle \<Rightarrow> real" where
  "peak t = fst (snd t)"

text \<open>
  The output terms in the key order of \<open>outputActivation\<close>, and the object that holds
  the activation \<open>a k\<close> under each key \<open>k\<close>.
\<close>

definition time_terms :: "time_term list" where
  "time_terms = [VS, S, M, L, VL]"

definition activation_object :: "(time_term \<Rightarrow> real) \<Rightarrow> activation" where
  "activation_object a = map (\<lambda>k. (k, a k)) time_terms"

text \<open>
  The specification's activation of an output term: the strengths
  \<open>min(degree(antecedent1), degree(antecedent2))\<close> of the rules whose consequent is the
  term, and their maximum, taken as \<open>0\<close> when there is no such rule.
\<close>

definition matching_strengths ::
  "(dirt_term \<Rightarrow> real) \<Rightarrow> (grease_term \<Rightarrow> real) \<Rightarrow> time_term \<Rightarrow> real list" where
  "matching_strengths dd gd k =
     [min (dd (fst row)) (gd (fst r)). row \<leftarrow> rules, r \<leftarrow> snd row, snd r = k]"

definition spec_activation ::
  "(dirt_term \<Rightarrow> real) \<Rightarrow> (grease_term \<Rightarrow> real) \<Rightarrow> time_term \<Rightarrow> real" where
  "spec_activation dd gd k =
     (if matching_strengths dd gd k = [] then 0 else Max (set (matching_strengths dd gd k)))"

subsection \<open>Double-precision arithmetic\<close>

text \<open>
  The statements about arbitrary triangles and about exact values of degrees depend on
  the rounding and the overflow of doubles. For them \<open>triangleMf\<close> and the fuzzification
  are modelled a second time, in IEEE 754 binary64 arithmetic.
\<close>

text \<open>
  A JavaScript number: a finite value, an infinity or \<open>NaN\<close>. The sign of a zero is
  not modelled; \<open>-0\<close> and \<open>0\<close> compare equal, and no statement below divides by a zero.
\<close>

datatype jsnum = Fin real | PosInf | NegInf | NaN

text \<open>Integer powers of two.\<close>

definition pow2 :: "int \<Rightarrow> real" where
  "pow2 k = (if 0 \<le> k then 2 ^ nat k else 1 / 2 ^ nat (- k))"

text \<open>Rounding to the nearest integer, a tie to the even one.\<close>

definition rne :: "real \<Rightarrow> int" where
  "rne z =
     (let f = \<lfloor>z\<rfloor>; d = z - of_int f
      in if d < 1 / 2 then f else if 1 / 2 < d then f + 1 else if even f then f else f + 1)"

text \<open>
  Rounding to binary64, to nearest with ties to even: the exponent of \<open>r\<close>, not below
  that of the subnormal numbers; the spacing of the doubles at \<open>r\<close> (53 significant
  bits); and \<open>r\<close> rounded to a multiple of the spacing, the exponent not yet bounded
  above.
\<close>

definition expo :: "real \<Rightarrow> int" where
  "expo r = (if r = 0 then - 1022 else max \<lfloor>log 2 \<bar>r\<bar>\<rfloor> (- 1022))"

definition ulp :: "real \<Rightarrow> real" where
  "ulp r = pow2 (expo r - 52)"

definition round64 :: "real \<Rightarrow> real" where
  "round64 r = of_int (rne (r / ulp r)) * ulp r"

text \<open>
  The double that an operation with exact result \<open>r\<close> returns: the rounded value, or an
  infinity when the rounded value reaches \<open>2 ^ 1024\<close>.
\<close>

definition fl :: "real \<Rightarrow> jsnum" where
  "fl r =
     (if pow2 1024 \<le> round64 r then PosInf
      else if round64 r \<le> - pow2 1024 then NegInf
      else Fin (round64 r))"

text \<open>A real number is a double when rounding leaves it unchanged.\<close>

definition is_double :: "real \<Rightarrow> bool" where
  "is_double r \<longleftrightarrow> fl r = Fin r"

text \<open>
  The operators \<open>-\<close> (on finite operands) and \<open>/\<close>. A division never throws; the
  cases with an infinity or \<open>NaN\<close> are those of IEEE 754.
\<close>

definition fsub :: "real \<Rightarrow> real \<Rightarrow> jsnum" where
  "fsub p q = fl (p - q)"

fun fdiv :: "jsnum \<Rightarrow> jsnum \<Rightarrow> jsnum" where
  "fdiv NaN q = NaN"
| "fdiv p NaN = NaN"
| "fdiv (Fin u) (Fin v) =
     (if v = 0 then (if u = 0 then NaN else if 0 < u then PosInf else NegInf) else fl (u / v))"
| "fdiv (Fin u) PosInf = Fin 0"
| "fdiv (Fin u) NegInf = Fin 0"
| "fdiv PosInf (Fin v) = (if 0 \<le> v then PosInf else NegInf)"
| "fdiv NegInf (Fin v) = (if 0 \<le> v then NegInf else PosInf)"
| "fdiv PosInf PosInf = NaN"
| "fdiv PosInf NegInf = NaN"
| "fdiv NegInf PosInf = NaN"
| "fdiv NegInf NegInf = NaN"

text \<open>
  \<open>triangleMf\<close> in double arithmetic: the guards of the source in its order, the two
  quotients computed with \<open>fsub\<close> and \<open>fdiv\<close>. The arguments are finite numbers, so
  the comparisons are those of the reals.
\<close>

fun triangleMf_fl :: "real \<Rightarrow> triangle \<Rightarrow> jsnum" where
  "triangleMf_fl x (a, b, c) =
     (if x \<le> a \<or> x \<ge> c then Fin 0
      else if x > a \<and> x \<le> b then fdiv (fsub x a) (fsub b a)
      else if x > b \<and> x < c then fdiv (fsub c x) (fsub c b)
      else Fin 0)"

text \<open>The divisor of the division that a call of \<open>triangleMf\<close> performs, if any.\<close>

fun divisor_fl :: "real \<Rightarrow> triangle \<Rightarrow> jsnum option" where
  "divisor_fl x (a, b, c) =
     (if x \<le> a \<or> x \<ge> c then None
      else if x > a \<and> x \<le> b then Some (fsub b a)
      else if x > b \<and> x < c then Some (fsub c b)
      else None)"

text \<open>The degrees that fuzzification computes, in double arithmetic.\<close>

definition dirtDegrees_fl :: "real \<Rightarrow> dirt_term \<Rightarrow> jsnum" where
  "dirtDegrees_fl dirtValue k =
     (case k of
        SD \<Rightarrow> triangleMf_fl dirtValue (dirtMf SD)
      | MD \<Rightarrow> triangleMf_fl dirtValue (dirtMf MD)
      | LD \<Rightarrow> triangleMf_fl dirtValue (dirtMf LD))"

definition greaseDegrees_fl :: "real \<Rightarrow> grease_term \<Rightarrow> jsnum" where
  "greaseDegrees_fl greaseValue k =
     (case k of
        NG \<Rightarrow> triangleMf_fl greaseValue (greaseMf NG)
      | MG \<Rightarrow> triangleMf_fl greaseValue (greaseMf MG)
      | LG \<Rightarrow> triangleMf_fl greaseValue (greaseMf LG))"

declare aggregateFrom.simps [simp del]

section \<open>Properties\<close>

subsection \<open>The membership function\<close>

lemma triangleMf_nonneg: "0 \<le> triangleMf x t"
  by (cases t) auto

lemma triangleMf_le_one: "triangleMf x t \<le> 1"
  by (cases t) auto

lemma triangleMf_checked_Some: "triangleMf_checked x t = Some (triangleMf x t)"
  by (cases t) (auto simp: js_div_def)

text \<open>
  C10. At its peak \<open>x = b\<close> a triangle with \<open>a = b\<close> gives \<open>0\<close> (through \<open>x \<le> a\<close>), and so
  does a triangle with \<open>b = c\<close> (through \<open>x \<ge> c\<close>). For \<open>a \<le> b \<le> c\<close> the value at the peak
  is \<open>1\<close> exactly when \<open>a < b < c\<close>.
\<close>

theorem triangleMf_peak:
  "(a = b \<longrightarrow> triangleMf b (a, b, c) = 0) \<and>
   (b = c \<longrightarrow> triangleMf b (a, b, c) = 0) \<and>
   (a \<le> b \<and> b \<le> c \<longrightarrow> (triangleMf b (a, b, c) = 1 \<longleftrightarrow> a < b \<and> b < c))"
  by auto

theorem triangleMf_peak_witness:
  "triangleMf 0 (0, 0, 1) = 0 \<and> triangleMf 1 (0, 1, 1) = 0 \<and>
   (0::real) \<le> 1 \<and> (1::real) \<le> 2 \<and> triangleMf 1 (0, 1, 2) = 1"
  using triangleMf_peak [of 0 0 1] triangleMf_peak [of 0 1 1] triangleMf_peak [of 0 1 2]
  by simp

subsection \<open>Loops as sums and maxima\<close>

lemma aggregateFrom_upt:
  "k \<le> 121 \<Longrightarrow>
   aggregateFrom act (real k / 2) pts =
     pts @ map (\<lambda>i. (real i / 2, maxDegreeAt act (real i / 2))) [k..<121]"
proof (induction "121 - k" arbitrary: k pts)
  case 0
  then have "k = 121" by simp
  then show ?case by (simp add: aggregateFrom.simps)
next
  case (Suc n)
  then have k: "k < 121" by simp
  then have le: "real k / 2 \<le> 60" by simp
  have step: "real k / 2 + 60 / samples = real (Suc k) / 2"
    by (simp add: samples_def field_simps)
  have "n = 121 - Suc k" using Suc.hyps(2) by simp
  then have IH: "aggregateFrom act (real (Suc k) / 2) qs =
      qs @ map (\<lambda>i. (real i / 2, maxDegreeAt act (real i / 2))) [Suc k..<121]" for qs
    using Suc.hyps(1) [of "Suc k" qs] k by simp
  show ?case
    using k le
    by (subst aggregateFrom.simps) (simp add: step IH upt_conv_Cons del: of_nat_Suc)
qed

lemma aggregate_eq:
  "aggregate act = map (\<lambda>i. (real i / 2, maxDegreeAt act (real i / 2))) [0..<121]"
  using aggregateFrom_upt [of 0 act "[]"] by (simp add: aggregate_def)

lemma cogSums_fold:
  "fold (\<lambda>p nd. (fst nd + fst p * snd p, snd nd + snd p)) pts (n, d) =
     (n + (\<Sum>p\<leftarrow>pts. fst p * snd p), d + (\<Sum>p\<leftarrow>pts. snd p))"
  by (induction pts arbitrary: n d) (simp_all add: algebra_simps)

lemma cogSums_eq:
  "cogSums pts = ((\<Sum>p\<leftarrow>pts. fst p * snd p), (\<Sum>p\<leftarrow>pts. snd p))"
  by (simp add: cogSums_def cogSums_fold)

lemma if_greater_max: "(if d > m then d else m) = max m (d::real)"
  by (simp add: max_def)

lemma fold_running_max:
  fixes f :: "'a \<Rightarrow> real"
  shows "fold (\<lambda>e m. if f e > m then f e else m) xs m = Max (insert m (f ` set xs))"
proof (induction xs arbitrary: m)
  case Nil
  then show ?case by simp
next
  case (Cons e xs)
  have "Max (insert (max m (f e)) (f ` set xs)) = Max (insert m (insert (f e) (f ` set xs)))"
    by (cases "xs = []") (simp_all add: max.assoc)
  then show ?case
    using Cons.IH [of "max m (f e)"] by (simp only: fold_simps if_greater_max list.set image_insert)
qed

lemma maxDegreeAt_Max:
  "maxDegreeAt act t = Max (insert 0 ((\<lambda>e. min (snd e) (triangleMf t (timeMf (fst e)))) ` set act))"
  unfolding maxDegreeAt_def Let_def by (rule fold_running_max)

lemma maxDegreeAt_nonneg: "0 \<le> maxDegreeAt act t"
  by (simp add: maxDegreeAt_Max)

lemma maxDegreeAt_le_one: "maxDegreeAt act t \<le> 1"
  by (auto simp: maxDegreeAt_Max intro: min.coboundedI2 triangleMf_le_one)

lemma max_zero_absorb: "0 \<le> p \<Longrightarrow> max 0 (max p q) = max p (q::real)"
  by linarith

lemma maxDegreeAt_object:
  assumes "\<And>k. 0 \<le> a k"
  shows "maxDegreeAt (activation_object a) t =
         Max ((\<lambda>k. min (a k) (triangleMf t (timeMf k))) ` set time_terms)"
proof -
  have "0 \<le> min (a VS) (triangleMf t (timeMf VS))"
    using assms [of VS] triangleMf_nonneg [of t "timeMf VS"] by simp
  then show ?thesis
    by (simp add: maxDegreeAt_Max activation_object_def time_terms_def max_zero_absorb
        del: timeMf.simps triangleMf.simps)
qed

subsection \<open>Rule evaluation\<close>

lemma map_of_activation_object: "map_of (activation_object a) k = Some (a k)"
  by (cases k) (simp_all add: activation_object_def time_terms_def)

lemma update_activation_object:
  "AList.update k v (activation_object a) = activation_object (a(k := v))"
  by (cases k) (simp_all add: activation_object_def time_terms_def)

lemma fire_object:
  "fire dd gd d (g, out) (activation_object a) =
     activation_object (a(out := max (a out) (min (dd d) (gd g))))"
proof (cases "min (dd d) (gd g) > a out")
  case True
  then have "max (a out) (min (dd d) (gd g)) = min (dd d) (gd g)"
    by (simp add: max_def)
  with True show ?thesis
    by (simp add: fire_def map_of_activation_object update_activation_object
        del: min_less_iff_conj)
next
  case False
  then have "max (a out) (min (dd d) (gd g)) = a out"
    by (intro max_absorb1) (simp only: not_less)
  with False show ?thesis
    by (simp add: fire_def map_of_activation_object del: min_less_iff_conj)
qed

lemma outputActivation_init_object: "outputActivation_init = activation_object (\<lambda>k. 0)"
  by (simp add: outputActivation_init_def activation_object_def time_terms_def)

lemma activation_object_cong: "(\<And>k. a k = b k) \<Longrightarrow> activation_object a = activation_object b"
  by (simp add: activation_object_def)

lemma max_zero_left: "0 \<le> p \<Longrightarrow> max 0 p = (p::real)"
  by simp

lemma evalRules_object:
  assumes dd: "\<And>k. 0 \<le> dd k" and gd: "\<And>k. 0 \<le> gd k"
  shows "evalRules dd gd = activation_object (spec_activation dd gd)"
proof -
  have s: "0 \<le> min (dd d) (gd g)" for d g
    using dd [of d] gd [of g] by simp
  have "evalRules dd gd =
      activation_object
        ((\<lambda>k. 0)
          (VS := max 0 (min (dd SD) (gd NG)),
           S := max (max 0 (min (dd SD) (gd MG))) (min (dd MD) (gd NG)),
           M := max (max (max 0 (min (dd SD) (gd LG))) (min (dd MD) (gd MG))) (min (dd LD) (gd NG)),
           L := max (max 0 (min (dd MD) (gd LG))) (min (dd LD) (gd MG)),
           VL := max 0 (min (dd LD) (gd LG))))"
    unfolding evalRules_def rules_def outputActivation_init_object
    by (simp add: fire_object)
  also have "\<dots> = activation_object (spec_activation dd gd)"
  proof (rule activation_object_cong)
    fix k
    show "((\<lambda>k. 0)
          (VS := max 0 (min (dd SD) (gd NG)),
           S := max (max 0 (min (dd SD) (gd MG))) (min (dd MD) (gd NG)),
           M := max (max (max 0 (min (dd SD) (gd LG))) (min (dd MD) (gd MG))) (min (dd LD) (gd NG)),
           L := max (max 0 (min (dd MD) (gd LG))) (min (dd LD) (gd MG)),
           VL := max 0 (min (dd LD) (gd LG)))) k = spec_activation dd gd k"
      by (cases k)
         (simp_all add: spec_activation_def matching_strengths_def rules_def
            max_zero_left [OF s] max.assoc)
  qed
  finally show ?thesis .
qed

lemma spec_activation_bounds:
  assumes "\<forall>k. 0 \<le> dd k \<and> dd k \<le> 1" and "\<forall>k. 0 \<le> gd k \<and> gd k \<le> 1"
  shows "0 \<le> spec_activation dd gd k \<and> spec_activation dd gd k \<le> 1"
proof -
  have s: "0 \<le> min (dd d) (gd g) \<and> min (dd d) (gd g) \<le> 1" for d g
    using assms by (simp add: min_le_iff_disj)
  show ?thesis
    using s
    by (cases k)
       (simp_all add: spec_activation_def matching_strengths_def rules_def le_max_iff_disj
          del: min_le_iff_disj min.bounded_iff)
qed

text \<open>
  C3. For degree mappings with values in \<open>[0, 1]\<close> the activation object has one entry
  per output term, in the order \<open>VS, S, M, L, VL\<close>; the entry of a term is the maximum,
  over the rules with that consequent, of the minimum of the two antecedent degrees
  (\<open>0\<close> if there is no such rule); and every entry lies in \<open>[0, 1]\<close>.
\<close>

theorem evalRules_max_min:
  assumes "\<forall>k. 0 \<le> dd k \<and> dd k \<le> 1" and "\<forall>k. 0 \<le> gd k \<and> gd k \<le> 1"
  shows "map fst (evalRules dd gd) = [VS, S, M, L, VL] \<and>
         evalRules dd gd = map (\<lambda>k. (k, spec_activation dd gd k)) [VS, S, M, L, VL] \<and>
         list_all (\<lambda>v. 0 \<le> v \<and> v \<le> 1) (map snd (evalRules dd gd))"
proof -
  have "evalRules dd gd = activation_object (spec_activation dd gd)"
    using assms by (intro evalRules_object) simp_all
  then show ?thesis
    using spec_activation_bounds [OF assms]
    by (simp add: activation_object_def time_terms_def)
qed

theorem evalRules_max_min_witness:
  "(\<forall>k. 0 \<le> dirtDegrees_of 50 k \<and> dirtDegrees_of 50 k \<le> 1) \<and>
   (\<forall>k. 0 \<le> greaseDegrees_of 50 k \<and> greaseDegrees_of 50 k \<le> 1) \<and>
   evalRules (dirtDegrees_of 50) (greaseDegrees_of 50) =
     [(VS, 1 / 2), (S, 1 / 2), (M, 1 / 2), (L, 0), (VL, 0)]"
proof -
  have d: "\<forall>k. 0 \<le> dirtDegrees_of 50 k \<and> dirtDegrees_of 50 k \<le> 1"
    by (simp add: dirtDegrees_of_def split: dirt_term.split)
  have g: "\<forall>k. 0 \<le> greaseDegrees_of 50 k \<and> greaseDegrees_of 50 k \<le> 1"
    by (simp add: greaseDegrees_of_def split: grease_term.split)
  have "evalRules (dirtDegrees_of 50) (greaseDegrees_of 50) =
      map (\<lambda>k. (k, spec_activation (dirtDegrees_of 50) (greaseDegrees_of 50) k))
        [VS, S, M, L, VL]"
    using evalRules_max_min [OF d g] by simp
  then show ?thesis
    using d g
    by (simp add: spec_activation_def matching_strengths_def rules_def dirtDegrees_of_def
        greaseDegrees_of_def)
qed

subsection \<open>Sampling of the output domain\<close>

lemma aggregate_xs: "map fst (aggregate act) = map (\<lambda>i. real i / 2) [0..<121]"
  by (simp add: aggregate_eq comp_def)

text \<open>
  C5. The aggregated surface has \<open>120 + 1\<close> points; the domain value of point \<open>i\<close> is
  \<open>0 + i * ((60 - 0) / 120)\<close>; the domain values are strictly increasing, the first is
  \<open>0\<close> and the last is \<open>60\<close>.
\<close>

theorem aggregatedPoints_samples:
  "map fst (aggregatedPoints (update dirtValue greaseValue)) =
     map (\<lambda>i. 0 + real i * ((60 - 0) / 120)) [0..<120 + 1] \<and>
   length (aggregatedPoints (update dirtValue greaseValue)) = 120 + 1 \<and>
   sorted_wrt (<) (map fst (aggregatedPoints (update dirtValue greaseValue))) \<and>
   fst (hd (aggregatedPoints (update dirtValue greaseValue))) = 0 \<and>
   fst (last (aggregatedPoints (update dirtValue greaseValue))) = 60"
proof -
  let ?pts = "aggregatedPoints (update dirtValue greaseValue)"
  have pts: "?pts = aggregate (evalRules (dirtDegrees_of dirtValue) (greaseDegrees_of greaseValue))"
    by (simp add: update_def Let_def)
  have xs: "map fst ?pts = map (\<lambda>i. real i / 2) [0..<121]"
    by (simp only: pts aggregate_xs)
  have "map fst ?pts = map (\<lambda>i. 0 + real i * ((60 - 0) / 120)) [0..<120 + 1]"
    by (simp only: xs) simp
  moreover have "length ?pts = 120 + 1"
    using arg_cong [OF xs, of length] by simp
  moreover have "sorted_wrt (<) (map fst ?pts)"
    by (simp only: xs) (simp add: sorted_wrt_map)
  moreover have "fst (hd ?pts) = 0"
    by (simp only: pts aggregate_eq) (simp add: hd_map)
  moreover have "fst (last ?pts) = 60"
    by (simp only: pts aggregate_eq) (simp add: last_map)
  ultimately show ?thesis by blast
qed

subsection \<open>Defuzzification\<close>

lemma defuzzify_range:
  assumes "\<And>p. p \<in> set pts \<Longrightarrow> 0 \<le> fst p \<and> fst p \<le> 60 \<and> 0 \<le> snd p"
  shows "0 \<le> defuzzify pts \<and> defuzzify pts \<le> 60"
proof -
  let ?n = "\<Sum>p\<leftarrow>pts. fst p * snd p" and ?d = "\<Sum>p\<leftarrow>pts. snd p"
  have n0: "0 \<le> ?n"
    using assms by (intro sum_list_nonneg) auto
  have d0: "0 \<le> ?d"
    using assms by (intro sum_list_nonneg) auto
  have "?n \<le> (\<Sum>p\<leftarrow>pts. 60 * snd p)"
    using assms by (intro sum_list_mono) (auto intro: mult_right_mono)
  then have n60: "?n \<le> 60 * ?d"
    by (simp add: sum_list_const_mult)
  show ?thesis
  proof (cases "?d = 0")
    case True
    then show ?thesis by (simp add: defuzzify_def cogSums_eq)
  next
    case False
    with d0 have "0 < ?d" by simp
    with n0 n60 False show ?thesis
      by (simp add: defuzzify_def cogSums_eq pos_divide_le_eq)
  qed
qed

text \<open>
  C8. For all inputs the crisp output lies in \<open>[0, 60]\<close>.
\<close>

theorem cog_in_output_domain:
  "0 \<le> cog (update dirtValue greaseValue) \<and> cog (update dirtValue greaseValue) \<le> 60"
proof -
  have "0 \<le> fst p \<and> fst p \<le> 60 \<and> 0 \<le> snd p"
    if "p \<in> set (aggregate act)" for p act
    using that by (auto simp: aggregate_eq maxDegreeAt_nonneg)
  then show ?thesis
    by (simp add: update_def Let_def defuzzify_range)
qed

lemma defuzzify_checked_Some: "defuzzify_checked pts = Some (defuzzify pts)"
  by (simp add: defuzzify_checked_def defuzzify_def js_div_def Let_def)

lemma evalRules_zero:
  assumes "\<forall>k. dd k = 0" and "\<forall>k. gd k = 0"
  shows "evalRules dd gd = outputActivation_init"
  using assms by (simp add: evalRules_def rules_def fire_def outputActivation_init_def)

lemma maxDegreeAt_init: "maxDegreeAt outputActivation_init t = 0"
  using triangleMf_nonneg [of t]
  by (simp add: maxDegreeAt_Max outputActivation_init_def min_absorb1 del: triangleMf.simps)

lemma defuzzify_zero_surface:
  assumes "\<And>p. p \<in> set pts \<Longrightarrow> snd p = 0"
  shows "defuzzify pts = 30"
proof -
  have "(\<Sum>p\<leftarrow>pts. snd p) = 0"
    using assms by (induction pts) simp_all
  then show ?thesis
    by (simp add: defuzzify_def cogSums_eq)
qed

text \<open>
  C1. With \<open>numerator\<close> the sum of \<open>t * \<mu>(t)\<close> and \<open>denominator\<close> the sum of \<open>\<mu>(t)\<close> over
  the points of the aggregated surface, the crisp output is \<open>30\<close> if the denominator is
  \<open>0\<close> and \<open>numerator / denominator\<close> otherwise. When every degree of both inputs is
  \<open>0\<close> the output is \<open>30\<close>. No division of the run has a zero divisor: not the final one
  (the checked defuzzification returns the output), not the step \<open>60 / samples\<close>, and none
  in a call of \<open>triangleMf\<close> during fuzzification or aggregation.
\<close>

theorem cog_centroid_or_fallback:
  "cog (update dirtValue greaseValue) =
     (let pts = aggregatedPoints (update dirtValue greaseValue);
          numerator = (\<Sum>p\<leftarrow>pts. fst p * snd p);
          denominator = (\<Sum>p\<leftarrow>pts. snd p)
      in if denominator = 0 then 30 else numerator / denominator) \<and>
   ((\<forall>k. dirtDegrees (update dirtValue greaseValue) k = 0) \<and>
    (\<forall>k. greaseDegrees (update dirtValue greaseValue) k = 0) \<longrightarrow>
      cog (update dirtValue greaseValue) = 30) \<and>
   defuzzify_checked (aggregatedPoints (update dirtValue greaseValue)) =
     Some (cog (update dirtValue greaseValue)) \<and>
   js_div 60 samples = Some (1 / 2) \<and>
   (\<forall>k. triangleMf_checked dirtValue (dirtMf k) =
      Some (dirtDegrees (update dirtValue greaseValue) k)) \<and>
   (\<forall>k. triangleMf_checked greaseValue (greaseMf k) =
      Some (greaseDegrees (update dirtValue greaseValue) k)) \<and>
   (\<forall>k t. triangleMf_checked t (timeMf k) = Some (triangleMf t (timeMf k)))"
proof -
  have dirt: "triangleMf_checked dirtValue (dirtMf k) =
      Some (dirtDegrees (update dirtValue greaseValue) k)" for k
    by (cases k) (simp_all add: update_def Let_def dirtDegrees_of_def triangleMf_checked_Some
        del: triangleMf_checked.simps triangleMf.simps)
  have grease: "triangleMf_checked greaseValue (greaseMf k) =
      Some (greaseDegrees (update dirtValue greaseValue) k)" for k
    by (cases k) (simp_all add: update_def Let_def greaseDegrees_of_def triangleMf_checked_Some
        del: triangleMf_checked.simps triangleMf.simps)
  have step: "js_div 60 samples = Some (1 / 2)"
    by (simp add: js_div_def samples_def)
  have "cog (update dirtValue greaseValue) = 30"
    if "\<forall>k. dirtDegrees_of dirtValue k = 0" and "\<forall>k. greaseDegrees_of greaseValue k = 0"
  proof -
    have "snd p = 0" if "p \<in> set (aggregate outputActivation_init)" for p
      using that by (auto simp: aggregate_eq maxDegreeAt_init)
    then have "defuzzify (aggregate outputActivation_init) = 30"
      by (rule defuzzify_zero_surface)
    then show ?thesis
      using evalRules_zero [OF that] by (simp add: update_def Let_def)
  qed
  moreover have "cog (update dirtValue greaseValue) =
     (let pts = aggregatedPoints (update dirtValue greaseValue);
          numerator = (\<Sum>p\<leftarrow>pts. fst p * snd p);
          denominator = (\<Sum>p\<leftarrow>pts. snd p)
      in if denominator = 0 then 30 else numerator / denominator)"
    by (simp add: update_def Let_def defuzzify_def cogSums_eq)
  moreover have "defuzzify_checked (aggregatedPoints (update dirtValue greaseValue)) =
     Some (cog (update dirtValue greaseValue))"
    by (simp add: update_def Let_def defuzzify_checked_Some)
  ultimately show ?thesis
    using dirt grease step triangleMf_checked_Some
    by (simp add: update_def Let_def)
qed

theorem cog_centroid_or_fallback_witness:
  "(\<forall>k. dirtDegrees (update 500 (-300)) k = 0) \<and>
   (\<forall>k. greaseDegrees (update 500 (-300)) k = 0) \<and>
   cog (update 500 (-300)) = 30 \<and>
   defuzzify_checked (aggregatedPoints (update 500 (-300))) = Some 30"
proof -
  have d: "\<forall>k. dirtDegrees (update 500 (-300)) k = 0"
    by (simp add: update_def Let_def dirtDegrees_of_def split: dirt_term.split)
  have g: "\<forall>k. greaseDegrees (update 500 (-300)) k = 0"
    by (simp add: update_def Let_def greaseDegrees_of_def split: grease_term.split)
  show ?thesis
    using d g cog_centroid_or_fallback [of 500 "-300"] by simp
qed

subsection \<open>Aggregation\<close>

text \<open>
  C4. For an activation mapping \<open>a\<close> with values in \<open>[0, 1]\<close>, held in an object with the
  five keys, the degree \<open>y\<close> of every point \<open>(t, y)\<close> of the aggregated surface is the
  maximum over the five output terms \<open>k\<close> of \<open>min (a k) (triangleMf t (timeMf k))\<close>, and it
  lies in \<open>[0, 1]\<close>.
\<close>

theorem aggregated_degree_max_min:
  assumes "\<forall>k. 0 \<le> a k \<and> a k \<le> 1"
    and "(t, y) \<in> set (aggregate (map (\<lambda>k. (k, a k)) [VS, S, M, L, VL]))"
  shows "y = Max ((\<lambda>k. min (a k) (triangleMf t (timeMf k))) ` {VS, S, M, L, VL}) \<and>
         0 \<le> y \<and> y \<le> 1"
proof -
  have obj: "map (\<lambda>k. (k, a k)) [VS, S, M, L, VL] = activation_object a"
    by (simp add: activation_object_def time_terms_def)
  have y: "y = maxDegreeAt (activation_object a) t"
    using assms(2) unfolding obj by (auto simp: aggregate_eq)
  have "maxDegreeAt (activation_object a) t =
      Max ((\<lambda>k. min (a k) (triangleMf t (timeMf k))) ` set time_terms)"
    using assms(1) by (intro maxDegreeAt_object) simp
  then show ?thesis
    using maxDegreeAt_nonneg [of "activation_object a" t]
      maxDegreeAt_le_one [of "activation_object a" t]
    by (simp only: y time_terms_def list.set)
qed

theorem aggregated_degree_max_min_witness:
  "(\<forall>k. (0::real) \<le> (if k = VS then 1 else 0) \<and> (if k = VS then 1 else 0) \<le> (1::real)) \<and>
   (1, 9 / 10) \<in> set (aggregate (map (\<lambda>k. (k, if k = VS then 1 else 0)) [VS, S, M, L, VL])) \<and>
   9 / 10 = Max ((\<lambda>k. min (if k = VS then 1 else 0) (triangleMf 1 (timeMf k))) ` {VS, S, M, L, VL}) \<and>
   (0::real) \<le> 9 / 10 \<and> (9 / 10 :: real) \<le> 1"
proof -
  let ?a = "\<lambda>k. if k = VS then 1 else 0 :: real"
  have h: "\<forall>k. 0 \<le> ?a k \<and> ?a k \<le> 1" by simp
  have v: "maxDegreeAt [(VS, 1), (S, 0), (M, 0), (L, 0), (VL, 0)] 1 = 9 / 10"
    by (simp add: maxDegreeAt_def)
  have "(real 2 / 2, 9 / 10) \<in> set (aggregate (map (\<lambda>k. (k, ?a k)) [VS, S, M, L, VL]))"
    unfolding aggregate_eq set_map by (rule image_eqI [where x = 2]) (simp_all add: v)
  then have m: "(1, 9 / 10) \<in> set (aggregate (map (\<lambda>k. (k, ?a k)) [VS, S, M, L, VL]))"
    by simp
  show ?thesis
    using h m aggregated_degree_max_min [OF h m] by blast
qed

subsection \<open>The scenario with both inputs at 0\<close>

lemma evalRules_zero_zero:
  "evalRules (dirtDegrees_of 0) (greaseDegrees_of 0) = [(VS, 1), (S, 0), (M, 0), (L, 0), (VL, 0)]"
  by (simp add: evalRules_def rules_def fire_def dirtDegrees_of_def greaseDegrees_of_def
      outputActivation_init_def)

lemma maxDegreeAt_VS_only:
  "maxDegreeAt [(VS, 1), (S, 0), (M, 0), (L, 0), (VL, 0)] t = triangleMf t (timeMf VS)"
  using triangleMf_nonneg [of t] triangleMf_le_one [of t "timeMf VS"]
  by (simp add: maxDegreeAt_Max min_absorb1 min_absorb2 max_absorb2
      del: triangleMf.simps timeMf.simps)

lemma VS_at_sample:
  "triangleMf (real i / 2) (timeMf VS) = (if i < 20 then 1 - real i / 20 else 0)"
  by (simp add: field_simps)

lemma sum_first_twenty:
  fixes h :: "nat \<Rightarrow> real"
  shows "(\<Sum>i\<leftarrow>[0..<121]. if i < 20 then h i else 0) = (\<Sum>i\<leftarrow>[0..<20]. h i)"
proof -
  let ?f = "\<lambda>i. if i < 20 then h i else 0"
  have split: "[0..<121] = [0..<20] @ [20..<121]"
    using upt_add_eq_append [of 0 20 101] by simp
  have low: "map ?f [0..<20] = map h [0..<20]"
    by (rule map_cong) (simp_all del: upt_rec_numeral)
  have high: "map ?f [20..<121] = map (\<lambda>i. 0) [20..<121]"
    by (rule map_cong) (simp_all del: upt_rec_numeral)
  show ?thesis
    by (simp only: split map_append sum_list_append low high sum_list_0 add_0_right)
qed

lemma upt_twenty: "[0..<20] = [0, 1, 2, 3, 4, 5, 6, 7, 8, 9, 10, 11, 12, 13, 14, 15, 16, 17, 18, 19]"
  by (simp add: upt_rec)

lemma defuzzify_VS_only: "defuzzify (aggregate [(VS, 1), (S, 0), (M, 0), (L, 0), (VL, 0)]) = 19 / 6"
proof -
  let ?pts = "aggregate [(VS, 1), (S, 0), (M, 0), (L, 0), (VL, 0)]"
  have pts: "?pts = map (\<lambda>i. (real i / 2, if i < 20 then 1 - real i / 20 else 0)) [0..<121]"
    by (simp only: aggregate_eq maxDegreeAt_VS_only VS_at_sample)
  have "(\<Sum>p\<leftarrow>?pts. snd p) = (\<Sum>i\<leftarrow>[0..<121]. if i < 20 then 1 - real i / 20 else 0)"
    by (simp only: pts map_map comp_def snd_conv)
  also have "\<dots> = (\<Sum>i\<leftarrow>[0..<20]. 1 - real i / 20)"
    by (rule sum_first_twenty)
  also have "\<dots> = 21 / 2"
    by (simp only: upt_twenty) simp
  finally have den: "(\<Sum>p\<leftarrow>?pts. snd p) = 21 / 2" .
  have "(\<Sum>p\<leftarrow>?pts. fst p * snd p) =
      (\<Sum>i\<leftarrow>[0..<121]. if i < 20 then real i / 2 * (1 - real i / 20) else 0)"
    by (simp only: pts map_map comp_def snd_conv fst_conv if_distrib [of "\<lambda>y. _ * y"] mult_zero_right)
  also have "\<dots> = (\<Sum>i\<leftarrow>[0..<20]. real i / 2 * (1 - real i / 20))"
    by (rule sum_first_twenty)
  also have "\<dots> = 133 / 4"
    by (simp only: upt_twenty) simp
  finally have num: "(\<Sum>p\<leftarrow>?pts. fst p * snd p) = 133 / 4" .
  show ?thesis
    by (simp add: defuzzify_def cogSums_eq num den)
qed

text \<open>
  C7. For the inputs \<open>0\<close> and \<open>0\<close> the activation of \<open>VS\<close> is \<open>1\<close> and that of every other
  output term is \<open>0\<close>. The crisp output is \<open>19 / 6\<close>; the peak of the \<open>VS\<close> triangle is
  \<open>0\<close>, and the output is nearer to it than to the peak of any other output term.
\<close>

theorem update_zero_zero:
  "outputActivation (update 0 0) = [(VS, 1), (S, 0), (M, 0), (L, 0), (VL, 0)] \<and>
   cog (update 0 0) = 19 / 6 \<and>
   peak (timeMf VS) = 0 \<and>
   list_all (\<lambda>k. \<bar>cog (update 0 0) - peak (timeMf VS)\<bar> < \<bar>cog (update 0 0) - peak (timeMf k)\<bar>)
     [S, M, L, VL]"
proof -
  have act: "outputActivation (update 0 0) = [(VS, 1), (S, 0), (M, 0), (L, 0), (VL, 0)]"
    by (simp add: update_def Let_def evalRules_zero_zero)
  have out: "cog (update 0 0) = 19 / 6"
    by (simp add: update_def Let_def evalRules_zero_zero defuzzify_VS_only)
  show ?thesis
    by (simp only: act out) (simp add: peak_def)
qed

subsection \<open>Rounding to double precision\<close>

lemma pow2_powr: "pow2 k = 2 powr real_of_int k"
  by (simp add: pow2_def powr_int)

lemma pow2_pos: "0 < pow2 k"
  by (simp add: pow2_powr)

lemma pow2_add: "pow2 (j + k) = pow2 j * pow2 k"
  by (simp add: pow2_powr powr_add)

lemma pow2_mono: "j \<le> k \<Longrightarrow> pow2 j \<le> pow2 k"
  by (simp add: pow2_powr)

lemma pow2_less: "j < k \<Longrightarrow> pow2 j < pow2 k"
  by (simp add: pow2_powr)

lemma pow2_of_int: "0 \<le> k \<Longrightarrow> pow2 k = of_int (2 ^ nat k)"
  by (simp add: pow2_def)

lemma rne_error: "\<bar>of_int (rne z) - z\<bar> \<le> 1 / 2"
  unfolding rne_def Let_def by (auto; linarith)

lemma rne_of_int: "rne (of_int k) = k"
  by (simp add: rne_def)

lemma rne_mono: "y \<le> z \<Longrightarrow> rne y \<le> rne z"
proof -
  assume yz: "y \<le> z"
  have fm: "\<lfloor>y\<rfloor> \<le> \<lfloor>z\<rfloor>" using yz by (rule floor_mono)
  show ?thesis
  proof (cases "\<lfloor>y\<rfloor> = \<lfloor>z\<rfloor>")
    case True
    with yz show ?thesis
      unfolding rne_def Let_def by auto
  next
    case False
    with fm have "\<lfloor>y\<rfloor> + 1 \<le> \<lfloor>z\<rfloor>" by simp
    moreover have "rne y \<le> \<lfloor>y\<rfloor> + 1" unfolding rne_def Let_def by auto
    moreover have "\<lfloor>z\<rfloor> \<le> rne z" unfolding rne_def Let_def by auto
    ultimately show ?thesis by linarith
  qed
qed

lemma ulp_pos: "0 < ulp r"
  by (simp add: ulp_def pow2_pos)

lemma round64_zero: "round64 0 = 0"
  by (simp add: round64_def rne_def)

lemma round64_error: "\<bar>round64 r - r\<bar> \<le> ulp r / 2"
proof -
  have "round64 r - r = (of_int (rne (r / ulp r)) - r / ulp r) * ulp r"
    using ulp_pos [of r] by (simp add: round64_def field_simps)
  then have "\<bar>round64 r - r\<bar> = \<bar>of_int (rne (r / ulp r)) - r / ulp r\<bar> * ulp r"
    using ulp_pos [of r] by (simp add: abs_mult)
  also have "\<dots> \<le> 1 / 2 * ulp r"
    using rne_error [of "r / ulp r"] ulp_pos [of r] by (intro mult_right_mono) simp_all
  finally show ?thesis by simp
qed


lemma expo_ge: "- 1022 \<le> expo r"
  by (simp add: expo_def)

lemma expo_eqI:
  assumes "pow2 k \<le> \<bar>r\<bar>" and "\<bar>r\<bar> < pow2 (k + 1)" and "- 1022 \<le> k"
  shows "expo r = k"
proof -
  have r: "0 < \<bar>r\<bar>" using assms(1) pow2_pos [of k] by linarith
  then have "\<lfloor>log 2 \<bar>r\<bar>\<rfloor> = k"
    using assms(1,2) by (simp add: floor_log_eq_powr_iff pow2_powr)
  with r assms(3) show ?thesis by (simp add: expo_def)
qed

lemma expo_subnormal: "\<bar>r\<bar> < pow2 (- 1022) \<Longrightarrow> expo r = - 1022"
proof (cases "r = 0")
  case True
  then show ?thesis by (simp add: expo_def)
next
  case False
  assume "\<bar>r\<bar> < pow2 (- 1022)"
  then have "log 2 \<bar>r\<bar> < - 1022"
    using False by (simp add: pow2_powr log_less_iff)
  then have "\<lfloor>log 2 \<bar>r\<bar>\<rfloor> < - 1022"
    by (simp add: floor_less_iff)
  then show ?thesis using False by (simp add: expo_def)
qed

lemma expo_normal:
  assumes "pow2 (- 1022) \<le> \<bar>r\<bar>"
  shows "pow2 (expo r) \<le> \<bar>r\<bar> \<and> \<bar>r\<bar> < pow2 (expo r + 1)"
proof -
  have r: "0 < \<bar>r\<bar>" using assms pow2_pos [of "- 1022"] by linarith
  have "- 1022 \<le> log 2 \<bar>r\<bar>"
    using assms r by (simp add: pow2_powr le_log_iff)
  then have "- 1022 \<le> \<lfloor>log 2 \<bar>r\<bar>\<rfloor>"
    by (simp add: le_floor_iff)
  then have e: "expo r = \<lfloor>log 2 \<bar>r\<bar>\<rfloor>"
    using r by (simp add: expo_def)
  show ?thesis
    using r floor_log_eq_powr_iff [of "\<bar>r\<bar>" 2 "expo r"] by (simp add: e pow2_powr)
qed

lemma expo_upper: "\<bar>r\<bar> < pow2 (expo r + 1)"
proof (cases "pow2 (- 1022) \<le> \<bar>r\<bar>")
  case True
  then show ?thesis using expo_normal by blast
next
  case False
  then have "expo r = - 1022" by (simp add: expo_subnormal)
  moreover have "pow2 (- 1022) \<le> pow2 (- 1021)" by (rule pow2_mono) simp
  ultimately show ?thesis using False by simp
qed

lemma expo_mono:
  assumes "\<bar>p\<bar> \<le> \<bar>q\<bar>"
  shows "expo p \<le> expo q"
proof (cases "pow2 (- 1022) \<le> \<bar>p\<bar>")
  case False
  then show ?thesis by (simp add: expo_subnormal expo_ge)
next
  case True
  then have q: "pow2 (- 1022) \<le> \<bar>q\<bar>" using assms by linarith
  have "pow2 (expo p) \<le> \<bar>p\<bar>" using expo_normal [OF True] by blast
  also have "\<dots> \<le> \<bar>q\<bar>" by (rule assms)
  also have "\<dots> < pow2 (expo q + 1)" by (rule expo_upper)
  finally have "expo p < expo q + 1"
    by (simp add: pow2_powr)
  then show ?thesis by simp
qed

lemma round64_eval:
  assumes "pow2 k \<le> \<bar>r\<bar>" and "\<bar>r\<bar> < pow2 (k + 1)" and "- 1022 \<le> k"
  shows "round64 r = of_int (rne (r / pow2 (k - 52))) * pow2 (k - 52)"
  by (simp add: round64_def ulp_def expo_eqI [OF assms])

lemma round64_relative_error:
  "\<bar>round64 r - r\<bar> \<le> pow2 (- 53) * \<bar>r\<bar> + pow2 (- 1075)"
proof (cases "pow2 (- 1022) \<le> \<bar>r\<bar>")
  case True
  have "ulp r / 2 = pow2 (expo r) * pow2 (- 53)"
    using pow2_add [of "expo r" "- 53"] pow2_add [of "expo r - 52" "- 1"]
    by (simp add: ulp_def pow2_def [of "- 1"])
  also have "\<dots> \<le> \<bar>r\<bar> * pow2 (- 53)"
    using expo_normal [OF True] pow2_pos [of "- 53"] by (intro mult_right_mono) simp_all
  finally show ?thesis
    using round64_error [of r] pow2_pos [of "- 1075"] by (simp add: mult.commute)
next
  case False
  then have "ulp r / 2 = pow2 (- 1075)"
    using pow2_add [of "- 1074" "- 1"] by (simp add: ulp_def expo_subnormal pow2_def [of "- 1"])
  moreover have "0 \<le> pow2 (- 53) * \<bar>r\<bar>"
    using pow2_pos [of "- 53"] by simp
  ultimately show ?thesis
    using round64_error [of r] by linarith
qed


lemma round64_scaled: "round64 r / ulp r = of_int (rne (r / ulp r))"
  using ulp_pos [of r] by (simp add: round64_def)

lemma round64_le_top:
  assumes "0 \<le> r"
  shows "round64 r \<le> pow2 (expo r + 1)"
proof -
  have "r / ulp r \<le> pow2 (expo r + 1) / ulp r"
    using expo_upper [of r] assms ulp_pos [of r] by (simp add: divide_right_mono)
  also have "pow2 (expo r + 1) / ulp r = pow2 53"
    using pow2_add [of "expo r - 52" 53] pow2_pos [of "expo r - 52"]
    by (simp add: ulp_def field_simps)
  also have "pow2 53 = of_int (2 ^ 53)"
    by (simp add: pow2_def)
  finally have "rne (r / ulp r) \<le> rne (of_int (2 ^ 53))"
    by (rule rne_mono)
  then have "rne (r / ulp r) \<le> 2 ^ 53"
    by (simp only: rne_of_int)
  then have "real_of_int (rne (r / ulp r)) \<le> real_of_int (2 ^ 53)"
    by (simp only: of_int_le_iff)
  then have "round64 r \<le> of_int (2 ^ 53) * ulp r"
    unfolding round64_def using ulp_pos [of r] by (intro mult_right_mono) simp_all
  also have "\<dots> = pow2 (expo r + 1)"
    using pow2_add [of "expo r - 52" 53]
    by (simp add: ulp_def pow2_def [of 53] mult.commute add.commute)
  finally show ?thesis .
qed

lemma round64_ge_bottom:
  assumes "pow2 (- 1022) \<le> r"
  shows "pow2 (expo r) \<le> round64 r"
proof -
  have r: "pow2 (- 1022) \<le> \<bar>r\<bar>" using assms by simp
  have r0: "0 \<le> r" using assms pow2_pos [of "- 1022"] by linarith
  have "pow2 (expo r) / ulp r = pow2 52"
    using pow2_add [of "expo r - 52" 52] pow2_pos [of "expo r - 52"]
    by (simp add: ulp_def field_simps)
  moreover have "pow2 (expo r) / ulp r \<le> r / ulp r"
    using expo_normal [OF r] r0 ulp_pos [of r] by (simp add: divide_right_mono)
  moreover have "pow2 52 = of_int (2 ^ 52)"
    by (simp add: pow2_def)
  ultimately have "of_int (2 ^ 52) \<le> r / ulp r"
    by simp
  then have "rne (of_int (2 ^ 52)) \<le> rne (r / ulp r)"
    by (rule rne_mono)
  then have "2 ^ 52 \<le> rne (r / ulp r)"
    by (simp only: rne_of_int)
  then have "real_of_int (2 ^ 52) \<le> real_of_int (rne (r / ulp r))"
    by (simp only: of_int_le_iff)
  then have "of_int (2 ^ 52) * ulp r \<le> round64 r"
    unfolding round64_def using ulp_pos [of r] by (intro mult_right_mono) simp_all
  moreover have "of_int (2 ^ 52) * ulp r = pow2 (expo r)"
    using pow2_add [of "expo r - 52" 52] by (simp add: ulp_def pow2_def [of 52] mult.commute)
  ultimately show ?thesis by simp
qed

lemma round64_mono:
  assumes "0 \<le> p" and "p \<le> q"
  shows "round64 p \<le> round64 q"
proof -
  have pq: "\<bar>p\<bar> \<le> \<bar>q\<bar>" using assms by simp
  have le: "expo p \<le> expo q" using pq by (rule expo_mono)
  show ?thesis
  proof (cases "expo p = expo q")
    case True
    then have u: "ulp p = ulp q" by (simp add: ulp_def)
    have "p / ulp q \<le> q / ulp q"
      using assms(2) ulp_pos [of q] by (simp add: divide_right_mono)
    then have "rne (p / ulp q) \<le> rne (q / ulp q)" by (rule rne_mono)
    then have "real_of_int (rne (p / ulp q)) \<le> real_of_int (rne (q / ulp q))"
      by (simp only: of_int_le_iff)
    then show ?thesis
      unfolding round64_def u using ulp_pos [of q] by (intro mult_right_mono) simp_all
  next
    case False
    with le have lt: "expo p + 1 \<le> expo q" by simp
    then have "- 1022 < expo q" using expo_ge [of p] by linarith
    then have "\<not> \<bar>q\<bar> < pow2 (- 1022)"
      using expo_subnormal [of q] by auto
    then have q: "pow2 (- 1022) \<le> q" using assms by simp
    have "round64 p \<le> pow2 (expo p + 1)" using assms(1) by (rule round64_le_top)
    also have "\<dots> \<le> pow2 (expo q)" using lt by (rule pow2_mono)
    also have "\<dots> \<le> round64 q" using q by (rule round64_ge_bottom)
    finally show ?thesis .
  qed
qed

lemma round64_nonneg: "0 \<le> r \<Longrightarrow> 0 \<le> round64 r"
  using round64_mono [of 0 r] by (simp add: round64_zero)

lemma round64_one: "round64 1 = 1"
proof -
  have "round64 1 = of_int (rne (1 / pow2 (0 - 52))) * pow2 (0 - 52)"
    by (rule round64_eval) (simp_all add: pow2_def)
  then show ?thesis
    by (simp add: pow2_def rne_def)
qed

lemma round64_hundred: "round64 100 = 100"
proof -
  have "round64 100 = of_int (rne (100 / pow2 (6 - 52))) * pow2 (6 - 52)"
    by (rule round64_eval) (simp_all add: pow2_def)
  then show ?thesis
    by (simp add: pow2_def rne_def)
qed

lemma fl_in_range: "- pow2 1024 < round64 r \<Longrightarrow> round64 r < pow2 1024 \<Longrightarrow> fl r = Fin (round64 r)"
  by (simp add: fl_def)

lemma fl_one: "fl 1 = Fin 1"
  by (simp add: fl_def round64_one pow2_def)

lemma fl_hundred: "fl 100 = Fin 100"
  by (simp add: fl_def round64_hundred pow2_def)

lemma fl_zero: "fl 0 = Fin 0"
  using pow2_pos [of 1024] by (simp add: fl_def round64_zero)


lemma round64_exact:
  assumes "pow2 k \<le> \<bar>r\<bar>" and "\<bar>r\<bar> < pow2 (k + 1)" and "- 1022 \<le> k"
    and "r / pow2 (k - 52) = of_int m"
  shows "round64 r = r"
proof -
  have "round64 r = of_int (rne (r / pow2 (k - 52))) * pow2 (k - 52)"
    using assms(1-3) by (rule round64_eval)
  also have "\<dots> = r / pow2 (k - 52) * pow2 (k - 52)"
    by (simp only: assms(4) rne_of_int)
  also have "\<dots> = r"
    using pow2_pos [of "k - 52"] by simp
  finally show ?thesis .
qed

lemma is_doubleI:
  assumes "pow2 k \<le> \<bar>r\<bar>" and "\<bar>r\<bar> < pow2 (k + 1)" and "- 1022 \<le> k" and "k \<le> 1023"
    and "r / pow2 (k - 52) = of_int m"
  shows "is_double r"
proof -
  have "round64 r = r" using assms(1,2,3,5) by (rule round64_exact)
  moreover have "pow2 (k + 1) \<le> pow2 1024" using assms(4) by (intro pow2_mono) simp
  ultimately have "round64 r < pow2 1024" and "- pow2 1024 < round64 r" and "round64 r = r"
    using assms(2) by (simp_all add: abs_less_iff)
  then show ?thesis
    by (simp add: is_double_def fl_def)
qed

lemma is_doubleD: "is_double r \<Longrightarrow> round64 r = r \<and> \<bar>r\<bar> < pow2 1024"
  by (auto simp: is_double_def fl_def split: if_splits)

lemma is_double_zero: "is_double 0"
  by (simp add: is_double_def fl_zero)

lemma fl_overflow:
  assumes "pow2 1024 \<le> r"
  shows "fl r = PosInf"
proof -
  have "round64 (pow2 1024) = pow2 1024"
    by (rule round64_exact [where k = 1024 and m = "2 ^ 52"]) (simp_all add: pow2_def)
  moreover have "round64 (pow2 1024) \<le> round64 r"
    using pow2_pos [of 1024] assms by (intro round64_mono) simp_all
  ultimately show ?thesis by (simp add: fl_def)
qed

lemma round64_grid: "\<exists>k::int. round64 r = of_int k * pow2 (- 1074)"
proof -
  have "0 \<le> expo r + 1022" using expo_ge [of r] by simp
  then have "pow2 (expo r + 1022) = of_int (2 ^ nat (expo r + 1022))"
    by (rule pow2_of_int)
  moreover have "ulp r = pow2 (expo r + 1022) * pow2 (- 1074)"
    using pow2_add [of "expo r + 1022" "- 1074"] by (simp add: ulp_def)
  ultimately have "round64 r = of_int (rne (r / ulp r) * 2 ^ nat (expo r + 1022)) * pow2 (- 1074)"
    by (simp add: round64_def)
  then show ?thesis by blast
qed

lemma double_gap:
  assumes "is_double p" and "is_double q" and "p < q"
  shows "pow2 (- 1074) \<le> q - p"
proof -
  obtain j :: int where j: "p = of_int j * pow2 (- 1074)"
    using round64_grid [of p] is_doubleD [OF assms(1)] by auto
  obtain k :: int where k: "q = of_int k * pow2 (- 1074)"
    using round64_grid [of q] is_doubleD [OF assms(2)] by auto
  have "real_of_int j < real_of_int k"
    using assms(3) pow2_pos [of "- 1074"] unfolding j k by (simp add: mult_less_cancel_right)
  then have "j + 1 \<le> k" by simp
  then have "real_of_int (j + 1) \<le> real_of_int k" by (simp only: of_int_le_iff)
  then have "real_of_int (j + 1) * pow2 (- 1074) \<le> real_of_int k * pow2 (- 1074)"
    using pow2_pos [of "- 1074"] by (intro mult_right_mono) simp_all
  then show ?thesis unfolding j k by (simp add: algebra_simps)
qed

lemma round64_least: "round64 (pow2 (- 1074)) = pow2 (- 1074)"
proof -
  have "pow2 (- 1074) < pow2 (- 1022)" by (simp add: pow2_powr)
  then have "expo (pow2 (- 1074)) = - 1022"
    using pow2_pos [of "- 1074"] by (intro expo_subnormal) simp
  then show ?thesis
    using pow2_pos [of "- 1074"] by (simp add: round64_def ulp_def rne_def)
qed

lemma double_diff_pos:
  assumes "is_double p" and "is_double q" and "p < q"
  shows "0 < round64 (q - p)"
proof -
  have "round64 (pow2 (- 1074)) \<le> round64 (q - p)"
    using double_gap [OF assms] pow2_pos [of "- 1074"] by (intro round64_mono) simp_all
  then show ?thesis
    using pow2_pos [of "- 1074"] by (simp add: round64_least)
qed

lemma quotient_cases:
  assumes "0 < n" and "n \<le> d" and "0 < round64 n"
  shows "fl d \<noteq> Fin 0 \<and>
         ((\<exists>r. fdiv (fl n) (fl d) = Fin r \<and> 0 \<le> r \<and> r \<le> 1) \<or>
          (fdiv (fl n) (fl d) = NaN \<and> fl n = PosInf \<and> fl d = PosInf))"
proof -
  have nd: "round64 n \<le> round64 d"
    using assms(1,2) by (intro round64_mono) simp_all
  have top: "0 < pow2 1024" by (rule pow2_pos)
  show ?thesis
  proof (cases "pow2 1024 \<le> round64 d")
    case True
    then have d: "fl d = PosInf" by (simp add: fl_def)
    show ?thesis
    proof (cases "pow2 1024 \<le> round64 n")
      case True
      then have "fl n = PosInf" by (simp add: fl_def)
      then show ?thesis by (simp add: d)
    next
      case False
      then have "fl n = Fin (round64 n)"
        using assms(3) top by (simp add: fl_def)
      then show ?thesis by (simp add: d)
    qed
  next
    case False
    then have d: "fl d = Fin (round64 d)"
      using nd assms(3) top by (simp add: fl_def)
    have n: "fl n = Fin (round64 n)"
      using False nd assms(3) top by (simp add: fl_def)
    have q0: "0 \<le> round64 n / round64 d"
      using nd assms(3) by simp
    have q1: "round64 n / round64 d \<le> 1"
      using nd assms(3) by simp
    have r0: "0 \<le> round64 (round64 n / round64 d)"
      using q0 by (rule round64_nonneg)
    have r1: "round64 (round64 n / round64 d) \<le> 1"
      using round64_mono [OF q0 q1] by (simp add: round64_one)
    have "pow2 1024 > 1" by (simp add: pow2_def)
    then have "fl (round64 n / round64 d) = Fin (round64 (round64 n / round64 d))"
      using r0 r1 by (simp add: fl_def)
    then show ?thesis
      using nd assms(3) r0 r1 by (simp add: d n)
  qed
qed


lemma is_double_one: "is_double 1"
  by (simp add: is_double_def fl_one)

lemma is_double_half: "is_double (1 / 2)"
  by (rule is_doubleI [where k = "- 1" and m = "2 ^ 52"]) (simp_all add: pow2_def)

subsection \<open>The membership function in double arithmetic\<close>

lemma triangleMf_fl_range:
  assumes "is_double x" and "is_double a" and "is_double b" and "is_double c"
  shows "divisor_fl x (a, b, c) \<noteq> Some (Fin 0) \<and>
         ((\<exists>r. triangleMf_fl x (a, b, c) = Fin r \<and> 0 \<le> r \<and> r \<le> 1) \<or>
          (triangleMf_fl x (a, b, c) = NaN \<and> divisor_fl x (a, b, c) = Some PosInf))"
proof -
  consider "x \<le> a \<or> x \<ge> c" | "\<not> (x \<le> a \<or> x \<ge> c)" "x > a \<and> x \<le> b"
    | "\<not> (x \<le> a \<or> x \<ge> c)" "\<not> (x > a \<and> x \<le> b)" "x > b \<and> x < c"
    | "\<not> (x \<le> a \<or> x \<ge> c)" "\<not> (x > a \<and> x \<le> b)" "\<not> (x > b \<and> x < c)"
    by blast
  then show ?thesis
  proof cases
    case 1
    then show ?thesis by simp
  next
    case 2
    then have "0 < x - a" and "x - a \<le> b - a" by simp_all
    moreover have "0 < round64 (x - a)"
      using assms(2,1) 2 by (intro double_diff_pos) simp_all
    ultimately show ?thesis
      using quotient_cases [of "x - a" "b - a"] 2 by (auto simp: fsub_def)
  next
    case 3
    then have "0 < c - x" and "c - x \<le> c - b" by simp_all
    moreover have "0 < round64 (c - x)"
      using assms(1,4) 3 by (intro double_diff_pos) simp_all
    ultimately show ?thesis
      using quotient_cases [of "c - x" "c - b"] 3 by (auto simp: fsub_def)
  next
    case 4
    then show ?thesis by simp
  qed
qed

text \<open>
  C6, as amended. For doubles \<open>x\<close>, \<open>a\<close>, \<open>b\<close>, \<open>c\<close> with \<open>a \<le> b \<le> c\<close> and \<open>a = b\<close> or
  \<open>b = c\<close>, the divisor of the division that \<open>triangleMf\<close> performs is never \<open>0\<close>, the
  rising branch is not taken when \<open>a = b\<close> and the falling branch is not taken when
  \<open>b = c\<close>. The result is a number in \<open>[0, 1]\<close>, or it is \<open>NaN\<close>, and then the divisor has
  overflowed to \<open>Infinity\<close>.
\<close>

theorem triangleMf_fl_degenerate:
  assumes "is_double x" and "is_double a" and "is_double b" and "is_double c"
    and "a \<le> b" and "b \<le> c" and "a = b \<or> b = c"
  shows "divisor_fl x (a, b, c) \<noteq> Some (Fin 0) \<and>
         (a = b \<longrightarrow> triangleMf_branch x (a, b, c) \<noteq> Rising) \<and>
         (b = c \<longrightarrow> triangleMf_branch x (a, b, c) \<noteq> Falling) \<and>
         ((\<exists>r. triangleMf_fl x (a, b, c) = Fin r \<and> 0 \<le> r \<and> r \<le> 1) \<or>
          (triangleMf_fl x (a, b, c) = NaN \<and> divisor_fl x (a, b, c) = Some PosInf))"
proof -
  have "a = b \<longrightarrow> triangleMf_branch x (a, b, c) \<noteq> Rising"
    by simp
  moreover have "b = c \<longrightarrow> triangleMf_branch x (a, b, c) \<noteq> Falling"
    by simp
  ultimately show ?thesis
    using triangleMf_fl_range [OF assms(1-4)] by blast
qed

theorem triangleMf_fl_degenerate_witness:
  "is_double (1 / 2) \<and> is_double 0 \<and> is_double 1 \<and>
   (0::real) \<le> 0 \<and> (0::real) \<le> 1 \<and> ((0::real) = 0 \<or> (0::real) = 1) \<and>
   divisor_fl (1 / 2) (0, 0, 1) = Some (Fin 1) \<and>
   triangleMf_branch (1 / 2) (0, 0, 1) = Falling \<and>
   triangleMf_fl (1 / 2) (0, 0, 1) = Fin (1 / 2)"
proof -
  have h: "is_double (1 / 2)" "is_double 0" "is_double 1"
    by (rule is_double_half is_double_zero is_double_one)+
  have v: "triangleMf_fl (1 / 2) (0, 0, 1) = Fin (1 / 2)"
    using is_double_half is_double_one by (simp add: fsub_def is_double_def)
  have d: "divisor_fl (1 / 2) (0, 0, 1) = Some (Fin 1)"
    using is_double_one by (simp add: fsub_def is_double_def)
  show ?thesis
    using h v d triangleMf_fl_degenerate [OF h(1) h(2) h(2) h(3)] by simp
qed

text \<open>
  C6, as stated, fails where the subtractions overflow: on the degenerate triangle
  \<open>(-3 * 2 ^ 1022, -3 * 2 ^ 1022, 3 * 2 ^ 1022)\<close> at \<open>x = - 2 ^ 1023\<close>, all of them doubles,
  both \<open>c - x\<close> and \<open>c - b\<close> are \<open>Infinity\<close> and the result is \<open>NaN\<close>, which is not in
  \<open>[0, 1]\<close>.
\<close>

theorem triangleMf_fl_degenerate_counterexample:
  "is_double (- (2 ^ 1023)) \<and> is_double (- (3 * 2 ^ 1022)) \<and> is_double (3 * 2 ^ 1022) \<and>
   - (3 * 2 ^ 1022) \<le> (3 * 2 ^ 1022 :: real) \<and>
   triangleMf_fl (- (2 ^ 1023)) (- (3 * 2 ^ 1022), - (3 * 2 ^ 1022), 3 * 2 ^ 1022) = NaN"
proof -
  have x: "is_double (- (2 ^ 1023))"
    by (rule is_doubleI [where k = 1023 and m = "- (2 ^ 52)"]) (simp_all add: pow2_def)
  have a: "is_double (- (3 * 2 ^ 1022))"
    by (rule is_doubleI [where k = 1023 and m = "- (3 * 2 ^ 51)"]) (simp_all add: pow2_def)
  have c: "is_double (3 * 2 ^ 1022)"
    by (rule is_doubleI [where k = 1023 and m = "3 * 2 ^ 51"]) (simp_all add: pow2_def)
  have n: "fl (3 * 2 ^ 1022 - - (2 ^ 1023)) = PosInf"
    by (rule fl_overflow) (simp add: pow2_def)
  have d: "fl (3 * 2 ^ 1022 - - (3 * 2 ^ 1022)) = PosInf"
    by (rule fl_overflow) (simp add: pow2_def)
  have "triangleMf_fl (- (2 ^ 1023)) (- (3 * 2 ^ 1022), - (3 * 2 ^ 1022), 3 * 2 ^ 1022) =
      fdiv (fl (3 * 2 ^ 1022 - - (2 ^ 1023))) (fl (3 * 2 ^ 1022 - - (3 * 2 ^ 1022)))"
    by (simp add: fsub_def)
  then show ?thesis
    using x a c by (simp only: n d fdiv.simps) simp
qed


text \<open>
  C2, as amended. For a triangle with \<open>a \<le> b \<le> c\<close> the result is \<open>0\<close> if \<open>x \<le> a\<close> or
  \<open>x \<ge> c\<close>; if \<open>a < x \<le> b\<close> and \<open>x < c\<close> it is the double quotient of the double differences
  \<open>x - a\<close> and \<open>b - a\<close>; if \<open>b < x < c\<close> it is the double quotient of the double differences
  \<open>c - x\<close> and \<open>c - b\<close>. Where the two differences and their quotient are doubles, the
  result is exactly \<open>(x - a) / (b - a)\<close>, respectively \<open>(c - x) / (c - b)\<close>.
\<close>

theorem triangleMf_fl_cases:
  assumes "a \<le> b" and "b \<le> c"
  shows "(x \<le> a \<or> x \<ge> c \<longrightarrow> triangleMf_fl x (a, b, c) = Fin 0) \<and>
         (a < x \<and> x \<le> b \<and> x < c \<longrightarrow>
            triangleMf_fl x (a, b, c) = fdiv (fsub x a) (fsub b a)) \<and>
         (b < x \<and> x < c \<longrightarrow>
            triangleMf_fl x (a, b, c) = fdiv (fsub c x) (fsub c b)) \<and>
         (a < x \<and> x \<le> b \<and> x < c \<and>
          is_double (x - a) \<and> is_double (b - a) \<and> is_double ((x - a) / (b - a)) \<longrightarrow>
            triangleMf_fl x (a, b, c) = Fin ((x - a) / (b - a))) \<and>
         (b < x \<and> x < c \<and>
          is_double (c - x) \<and> is_double (c - b) \<and> is_double ((c - x) / (c - b)) \<longrightarrow>
            triangleMf_fl x (a, b, c) = Fin ((c - x) / (c - b)))"
  using assms by (auto simp: fsub_def is_double_def)

theorem triangleMf_fl_cases_witness:
  "(0::real) \<le> 1 \<and> (1::real) \<le> 2 \<and>
   triangleMf_fl (- 1) (0, 1, 2) = Fin 0 \<and>
   is_double (1 / 2 - 0) \<and> is_double (1 - 0) \<and> is_double ((1 / 2 - 0) / (1 - 0)) \<and>
   triangleMf_fl (1 / 2) (0, 1, 2) = Fin ((1 / 2 - 0) / (1 - 0)) \<and>
   is_double (2 - 3 / 2) \<and> is_double (2 - 1) \<and> is_double ((2 - 3 / 2) / (2 - 1)) \<and>
   triangleMf_fl (3 / 2) (0, 1, 2) = Fin ((2 - 3 / 2) / (2 - 1))"
  using triangleMf_fl_cases [of 0 1 2 "- 1"] triangleMf_fl_cases [of 0 1 2 "1 / 2"]
    triangleMf_fl_cases [of 0 1 2 "3 / 2"] is_double_half is_double_one
  by simp

text \<open>
  C2, as stated, fails in two places. Where the first two clauses overlap: on the
  triangle \<open>(0, 1, 1)\<close> the point \<open>x = 1\<close> satisfies \<open>a < x \<le> b\<close>, the rising clause promises
  \<open>1\<close>, and the code returns \<open>0\<close> through \<open>x \<ge> c\<close>. And where a difference overflows: on
  \<open>(- 2 ^ 1023, 2 ^ 1023, 3 * 2 ^ 1022)\<close> at \<open>x = 0\<close> the difference \<open>b - a\<close> is \<open>Infinity\<close>
  and the code returns \<open>0\<close>, not \<open>1 / 2\<close>.
\<close>

theorem triangleMf_fl_cases_counterexample:
  "(0::real) \<le> 1 \<and> (1::real) \<le> 1 \<and>
   \<not> ((0::real) < 1 \<and> (1::real) \<le> 1 \<longrightarrow> triangleMf_fl 1 (0, 1, 1) = Fin ((1 - 0) / (1 - 0))) \<and>
   is_double 0 \<and> is_double (- (2 ^ 1023)) \<and> is_double (2 ^ 1023) \<and> is_double (3 * 2 ^ 1022) \<and>
   - (2 ^ 1023) \<le> (2 ^ 1023 :: real) \<and> 2 ^ 1023 \<le> (3 * 2 ^ 1022 :: real) \<and>
   \<not> (- (2 ^ 1023) < (0::real) \<and> (0::real) \<le> 2 ^ 1023 \<longrightarrow>
        triangleMf_fl 0 (- (2 ^ 1023), 2 ^ 1023, 3 * 2 ^ 1022) =
          Fin ((0 - - (2 ^ 1023)) / (2 ^ 1023 - - (2 ^ 1023))))"
proof -
  have a: "is_double (- (2 ^ 1023))"
    by (rule is_doubleI [where k = 1023 and m = "- (2 ^ 52)"]) (simp_all add: pow2_def)
  have b: "is_double (2 ^ 1023)"
    by (rule is_doubleI [where k = 1023 and m = "2 ^ 52"]) (simp_all add: pow2_def)
  have c: "is_double (3 * 2 ^ 1022)"
    by (rule is_doubleI [where k = 1023 and m = "3 * 2 ^ 51"]) (simp_all add: pow2_def)
  have n: "fl (0 - - (2 ^ 1023)) = Fin (2 ^ 1023)"
    using b by (simp add: is_double_def)
  have d: "fl (2 ^ 1023 - - (2 ^ 1023)) = PosInf"
    by (rule fl_overflow) (simp add: pow2_def)
  have "triangleMf_fl 0 (- (2 ^ 1023), 2 ^ 1023, 3 * 2 ^ 1022) =
      fdiv (fl (0 - - (2 ^ 1023))) (fl (2 ^ 1023 - - (2 ^ 1023)))"
    by (simp add: fsub_def)
  then have big: "triangleMf_fl 0 (- (2 ^ 1023), 2 ^ 1023, 3 * 2 ^ 1022) = Fin 0"
    by (simp only: n d fdiv.simps)
  have small: "triangleMf_fl 1 (0, 1, 1) = Fin 0"
    by simp
  show ?thesis
    using a b c is_double_zero by (simp only: big small) simp
qed


subsection \<open>Fuzzification in double arithmetic\<close>

lemma round64_error_small:
  assumes "0 \<le> r"
  shows "\<bar>round64 r - r\<bar> \<le> r / 2 ^ 53 + 1 / 2 ^ 60"
proof -
  have "pow2 (- 1075) \<le> pow2 (- 60)" by (rule pow2_mono) simp
  then show ?thesis
    using round64_relative_error [of r] assms by (simp add: pow2_def)
qed

lemma fl_upto_hundred:
  assumes "0 \<le> r" and "r \<le> 100"
  shows "fl r = Fin (round64 r) \<and> 0 \<le> round64 r \<and> round64 r \<le> 100"
proof -
  have lo: "0 \<le> round64 r" using assms(1) by (rule round64_nonneg)
  have hi: "round64 r \<le> 100" using round64_mono [OF assms] by (simp add: round64_hundred)
  have "(100::real) < pow2 1024" by (simp add: pow2_def)
  then show ?thesis using lo hi by (simp add: fl_def)
qed

lemma degree_quotient:
  assumes "0 \<le> u" and "u \<le> 100"
  shows "fdiv (fl u) (fl 100) = Fin (round64 (round64 u / 100)) \<and>
         0 \<le> round64 u \<and> round64 u \<le> 100"
proof -
  have u: "fl u = Fin (round64 u)" "0 \<le> round64 u" "round64 u \<le> 100"
    using fl_upto_hundred [OF assms] by simp_all
  have "0 \<le> round64 u / 100" and "round64 u / 100 \<le> 100"
    using u(2,3) by simp_all
  then have "fl (round64 u / 100) = Fin (round64 (round64 u / 100))"
    using fl_upto_hundred by blast
  then show ?thesis
    using u by (simp add: fl_hundred)
qed

lemma rounding_budget:
  fixes P Q D E u v :: real
  assumes "\<bar>P - u\<bar> \<le> u / 2 ^ 53 + 1 / 2 ^ 60"
    and "\<bar>Q - v\<bar> \<le> v / 2 ^ 53 + 1 / 2 ^ 60"
    and "\<bar>D - P / 100\<bar> \<le> P / 100 / 2 ^ 53 + 1 / 2 ^ 60"
    and "\<bar>E - Q / 100\<bar> \<le> Q / 100 / 2 ^ 53 + 1 / 2 ^ 60"
    and "0 \<le> u" and "0 \<le> v" and "u + v = 100"
  shows "\<bar>D + E - 1\<bar> \<le> 1 / 2 ^ 51"
proof -
  have 1: "P \<le> u + (u / 2 ^ 53 + 1 / 2 ^ 60)" "u - (u / 2 ^ 53 + 1 / 2 ^ 60) \<le> P"
    using assms(1) by (simp_all add: abs_le_iff)
  have 2: "Q \<le> v + (v / 2 ^ 53 + 1 / 2 ^ 60)" "v - (v / 2 ^ 53 + 1 / 2 ^ 60) \<le> Q"
    using assms(2) by (simp_all add: abs_le_iff)
  have 3: "D \<le> P / 100 + (P / 100 / 2 ^ 53 + 1 / 2 ^ 60)"
    "P / 100 - (P / 100 / 2 ^ 53 + 1 / 2 ^ 60) \<le> D"
    using assms(3) by (simp_all add: abs_le_iff)
  have 4: "E \<le> Q / 100 + (Q / 100 / 2 ^ 53 + 1 / 2 ^ 60)"
    "Q / 100 - (Q / 100 / 2 ^ 53 + 1 / 2 ^ 60) \<le> E"
    using assms(4) by (simp_all add: abs_le_iff)
  have up: "D + E - 1 \<le> 1 / 2 ^ 51"
    using 1 2 3 4 assms(5-7) by simp
  have lo: "- (1 / 2 ^ 51) \<le> D + E - 1"
    using 1 2 3 4 assms(5-7) by simp
  show ?thesis
    using up lo by (intro abs_leI) simp_all
qed

lemma pair_sum:
  assumes "0 \<le> u" and "0 \<le> v" and "u + v = 100"
  shows "\<bar>round64 (round64 u / 100) + round64 (round64 v / 100) - 1\<bar> \<le> 1 / 2 ^ 51"
proof -
  have p: "0 \<le> round64 u" and q: "0 \<le> round64 v"
    using assms by (simp_all add: round64_nonneg)
  have e1: "\<bar>round64 u - u\<bar> \<le> u / 2 ^ 53 + 1 / 2 ^ 60"
    using assms(1) by (rule round64_error_small)
  have e2: "\<bar>round64 v - v\<bar> \<le> v / 2 ^ 53 + 1 / 2 ^ 60"
    using assms(2) by (rule round64_error_small)
  have e3: "\<bar>round64 (round64 u / 100) - round64 u / 100\<bar> \<le> round64 u / 100 / 2 ^ 53 + 1 / 2 ^ 60"
    using p by (intro round64_error_small) simp
  have e4: "\<bar>round64 (round64 v / 100) - round64 v / 100\<bar> \<le> round64 v / 100 / 2 ^ 53 + 1 / 2 ^ 60"
    using q by (intro round64_error_small) simp
  show ?thesis
    using e1 e2 e3 e4 assms by (rule rounding_budget)
qed

lemma three_degrees:
  assumes "0 \<le> x" and "x \<le> 200"
  shows "\<exists>d1 d2 d3.
           triangleMf_fl x (- 100, 0, 100) = Fin d1 \<and>
           triangleMf_fl x (0, 100, 200) = Fin d2 \<and>
           triangleMf_fl x (100, 200, 300) = Fin d3 \<and>
           \<bar>d1 + d2 + d3 - 1\<bar> \<le> 1 / 2 ^ 51"
proof -
  consider "x = 0" | "0 < x" "x < 100" | "x = 100" | "100 < x" "x < 200" | "x = 200"
    using assms by linarith
  then show ?thesis
  proof cases
    case 1
    then show ?thesis by (simp add: fsub_def fl_hundred fl_one)
  next
    case 2
    have a: "fdiv (fl (100 - x)) (fl 100) = Fin (round64 (round64 (100 - x) / 100))"
      using 2 degree_quotient [of "100 - x"] by simp
    have b: "fdiv (fl x) (fl 100) = Fin (round64 (round64 x / 100))"
      using 2 degree_quotient [of x] by simp
    have "\<bar>round64 (round64 (100 - x) / 100) + round64 (round64 x / 100) - 1\<bar> \<le> 1 / 2 ^ 51"
      using 2 by (intro pair_sum) simp_all
    then show ?thesis
      using 2 by (simp add: fsub_def a b)
  next
    case 3
    then show ?thesis by (simp add: fsub_def fl_hundred fl_one)
  next
    case 4
    have a: "fdiv (fl (200 - x)) (fl 100) = Fin (round64 (round64 (200 - x) / 100))"
      using 4 degree_quotient [of "200 - x"] by simp
    have b: "fdiv (fl (x - 100)) (fl 100) = Fin (round64 (round64 (x - 100) / 100))"
      using 4 degree_quotient [of "x - 100"] by simp
    have "\<bar>round64 (round64 (200 - x) / 100) + round64 (round64 (x - 100) / 100) - 1\<bar> \<le> 1 / 2 ^ 51"
      using 4 by (intro pair_sum) simp_all
    then show ?thesis
      using 4 by (simp add: fsub_def a b)
  next
    case 5
    then show ?thesis by (simp add: fsub_def fl_hundred fl_one)
  qed
qed

text \<open>
  C9, as amended. For a crisp value in \<open>[0, 200]\<close> the three degrees of the dirt variable
  are finite numbers and their sum differs from \<open>1\<close> by at most \<open>2 ^ - 51\<close>; so for the
  grease variable.
\<close>

theorem degrees_sum_near_one:
  assumes "0 \<le> v" and "v \<le> 200"
  shows "(\<exists>d1 d2 d3.
            dirtDegrees_fl v SD = Fin d1 \<and> dirtDegrees_fl v MD = Fin d2 \<and>
            dirtDegrees_fl v LD = Fin d3 \<and> \<bar>d1 + d2 + d3 - 1\<bar> \<le> 1 / 2 ^ 51) \<and>
         (\<exists>d1 d2 d3.
            greaseDegrees_fl v NG = Fin d1 \<and> greaseDegrees_fl v MG = Fin d2 \<and>
            greaseDegrees_fl v LG = Fin d3 \<and> \<bar>d1 + d2 + d3 - 1\<bar> \<le> 1 / 2 ^ 51)"
  using three_degrees [OF assms]
  by (simp add: dirtDegrees_fl_def greaseDegrees_fl_def del: triangleMf_fl.simps)


lemma fl_eval:
  assumes "pow2 k \<le> r" and "r < pow2 (k + 1)" and "- 1022 \<le> k" and "k < 1023"
  shows "fl r = Fin (of_int (rne (r / pow2 (k - 52))) * pow2 (k - 52))"
proof -
  have r0: "0 \<le> r" using assms(1) pow2_pos [of k] by linarith
  then have a: "pow2 k \<le> \<bar>r\<bar>" "\<bar>r\<bar> < pow2 (k + 1)" using assms(1,2) by simp_all
  have e: "expo r = k" using a assms(3) by (rule expo_eqI)
  have v: "round64 r = of_int (rne (r / pow2 (k - 52))) * pow2 (k - 52)"
    using a assms(3) by (rule round64_eval)
  have "round64 r \<le> pow2 (k + 1)"
    using round64_le_top [OF r0] by (simp add: e)
  also have "pow2 (k + 1) < pow2 1024"
    using assms(4) by (intro pow2_less) simp
  finally have hi: "round64 r < pow2 1024" .
  have "0 \<le> round64 r" using r0 by (rule round64_nonneg)
  then have lo: "- pow2 1024 < round64 r"
    using pow2_pos [of 1024] by linarith
  show ?thesis
    using lo hi by (simp add: fl_def v [symmetric])
qed

lemma degrees_at_three:
  "triangleMf_fl 3 (- 100, 0, 100) = Fin (4368491638549381 / 2 ^ 52) \<and>
   triangleMf_fl 3 (0, 100, 200) = Fin (1080863910568919 / 2 ^ 55) \<and>
   triangleMf_fl 3 (100, 200, 300) = Fin 0"
proof -
  have f97: "fl 97 = Fin 97"
    using fl_eval [of 6 97] by (simp add: pow2_def rne_def)
  have f3: "fl 3 = Fin 3"
    using fl_eval [of 1 3] by (simp add: pow2_def rne_def)
  have q97: "fl (97 / 100) = Fin (4368491638549381 / 2 ^ 52)"
    using fl_eval [of "- 1" "97 / 100"] by (simp add: pow2_def rne_def)
  have q3: "fl (3 / 100) = Fin (1080863910568919 / 2 ^ 55)"
    using fl_eval [of "- 6" "3 / 100"] by (simp add: pow2_def rne_def)
  show ?thesis
    by (simp add: fsub_def fl_hundred f97 f3 q97 q3)
qed

theorem degrees_sum_near_one_witness:
  "(0::real) \<le> 3 \<and> (3::real) \<le> 200 \<and>
   (\<exists>d1 d2 d3.
      dirtDegrees_fl 3 SD = Fin d1 \<and> dirtDegrees_fl 3 MD = Fin d2 \<and>
      dirtDegrees_fl 3 LD = Fin d3 \<and> \<bar>d1 + d2 + d3 - 1\<bar> \<le> 1 / 2 ^ 51) \<and>
   (\<exists>d1 d2 d3.
      greaseDegrees_fl 3 NG = Fin d1 \<and> greaseDegrees_fl 3 MG = Fin d2 \<and>
      greaseDegrees_fl 3 LG = Fin d3 \<and> \<bar>d1 + d2 + d3 - 1\<bar> \<le> 1 / 2 ^ 51)"
  using degrees_sum_near_one [of 3] by simp

text \<open>
  C9, as stated, fails at the value \<open>3\<close>: the degrees are the doubles nearest to
  \<open>97 / 100\<close> and \<open>3 / 100\<close>, and \<open>0\<close>, and their sum is \<open>1 - 2 ^ - 55\<close>.
\<close>

theorem degrees_sum_counterexample:
  "(0::real) \<le> 3 \<and> (3::real) \<le> 200 \<and>
   dirtDegrees_fl 3 SD = Fin (4368491638549381 / 2 ^ 52) \<and>
   dirtDegrees_fl 3 MD = Fin (1080863910568919 / 2 ^ 55) \<and>
   dirtDegrees_fl 3 LD = Fin 0 \<and>
   4368491638549381 / 2 ^ 52 + 1080863910568919 / 2 ^ 55 + 0 \<noteq> (1::real)"
  using degrees_at_three
  by (simp add: dirtDegrees_fl_def del: triangleMf_fl.simps)

end
